theory Spec2Isabelle
  imports Complex_Main "HOL-Library.AList"
begin

section \<open>The authoritative game server of \<open>server.py\<close>\<close>

text \<open>
  The server keeps one world in module globals: the dictionary \<open>players\<close>, the list
  \<open>bullets\<close>, the counter \<open>next_player_id\<close>, the list \<open>client_sockets\<close>, the
  dictionary \<open>player_connections\<close> and the timestamp \<open>game_start_time\<close>. Every
  access happens inside \<open>with lock\<close>, so each locked block is one atomic step on the
  world: the body of the accept loop of \<open>main\<close>, the handling of one decoded message in
  \<open>handle_client\<close>, the \<open>finally\<close> block of \<open>handle_client\<close>, and one iteration of
  \<open>game_loop\<close>.

  Python dictionaries enumerate in insertion order, and \<open>check_bullet_collisions\<close>
  depends on that order, so a dictionary is an association list: assignment to a new key
  appends (\<open>AList.update\<close>), \<open>del\<close> keeps the order of the rest (\<open>AList.delete\<close>),
  and an in-place change of a stored value is \<open>AList.map_entry\<close>. Python integers are
  unbounded (\<open>int\<close>). Coordinates, velocities and timestamps are Python numbers; they are
  idealised as \<open>real\<close>, so floating-point rounding is outside the model.
\<close>

subsection \<open>Data\<close>

record player =
  pos :: "real \<times> real"
  color :: "nat \<times> nat \<times> nat"
  health :: int
  kills :: int
  is_dead :: bool

record bullet =
  b_x :: real
  b_y :: real
  b_dx :: real
  b_dy :: real
  owner_id :: int

type_synonym conn = nat

type_synonym players_dict = "(int \<times> player) list"

record world =
  players :: players_dict
  bullets :: "bullet list"
  next_player_id :: int
  client_sockets :: "conn list"
  player_connections :: "(int \<times> conn) list"
  game_start_time :: "real option"

text \<open>
  A decoded client message is a dictionary read with \<open>msg.get\<close>; a field is \<open>None\<close>
  when its key is absent. Messages are taken to be well typed when present (a string
  action, an integer player id, numeric \<open>dx\<close> and \<open>dy\<close>).
\<close>

record message =
  m_action :: "string option"
  m_player_id :: "int option"
  m_dx :: "real option"
  m_dy :: "real option"

record snapshot =
  s_players :: players_dict
  s_bullets :: "bullet list"
  time_left :: real

datatype out_msg = Server_full | Handshake int nat | Game_state snapshot

datatype event = Sendall conn out_msg | Close conn | Start_thread conn int

datatype error = KeyError | ValueError

definition MAX_PLAYERS :: nat where
  "MAX_PLAYERS = 5"

definition GAME_DURATION :: real where
  "GAME_DURATION = 300"

definition init_world :: world where
  "init_world = \<lparr>players = [], bullets = [], next_player_id = 0, client_sockets = [],
     player_connections = [], game_start_time = None\<rparr>"

subsection \<open>Dictionary primitives that can raise\<close>

definition has_key :: "('k \<times> 'v) list \<Rightarrow> 'k \<Rightarrow> bool" where
  "has_key d k = (k \<in> set (map fst d))"

text \<open>\<open>pid in players\<close> for the \<open>pid\<close> of a message: \<open>None\<close> is never a key.\<close>

definition pid_in :: "int option \<Rightarrow> players_dict \<Rightarrow> bool" where
  "pid_in pid d = (case pid of None \<Rightarrow> False | Some k \<Rightarrow> has_key d k)"

text \<open>
  \<open>players[pid]\<close> raises \<open>KeyError\<close> on a missing key; otherwise it gives the entry,
  returned here with its integer key.
\<close>

definition getitem :: "players_dict \<Rightarrow> int option \<Rightarrow> error + (int \<times> player)" where
  "getitem d pid =
     (case pid of None \<Rightarrow> Inl KeyError
      | Some k \<Rightarrow> (case map_of d k of None \<Rightarrow> Inl KeyError | Some p \<Rightarrow> Inr (k, p)))"

text \<open>\<open>del d[k]\<close> raises \<open>KeyError\<close>, \<open>l.remove(c)\<close> raises \<open>ValueError\<close>.\<close>

definition delitem :: "('k \<times> 'v) list \<Rightarrow> 'k \<Rightarrow> error + ('k \<times> 'v) list" where
  "delitem d k = (if has_key d k then Inr (AList.delete k d) else Inl KeyError)"

definition list_remove :: "'a list \<Rightarrow> 'a \<Rightarrow> error + 'a list" where
  "list_remove l c = (if c \<in> set l then Inr (remove1 c l) else Inl ValueError)"

definition get_default :: "'a option \<Rightarrow> 'a \<Rightarrow> 'a" where
  "get_default v d = (case v of None \<Rightarrow> d | Some a \<Rightarrow> a)"

subsection \<open>\<open>handle_client\<close>: one message under the lock\<close>

text \<open>
  The body of \<open>with lock\<close> in the receive loop. \<open>continue\<close> and falling off the end of
  the block both leave the loop state as it is, so they return the world.
\<close>

definition handle_client_msg :: "message \<Rightarrow> world \<Rightarrow> error + world" where
  "handle_client_msg msg w =
     (let action = m_action msg; pid = m_player_id msg in
      case (if pid_in pid (players w)
            then (case getitem (players w) pid of Inl e \<Rightarrow> Inl e | Inr (k, p) \<Rightarrow> Inr (is_dead p))
            else Inr False) of
        Inl e \<Rightarrow> Inl e
      | Inr True \<Rightarrow> Inr w
      | Inr False \<Rightarrow>
          if action = Some ''move'' then
            (let dx = get_default (m_dx msg) 0; dy = get_default (m_dy msg) 0 in
             if pid_in pid (players w) then
               (case getitem (players w) pid of
                  Inl e \<Rightarrow> Inl e
                | Inr (k, p) \<Rightarrow>
                   (case pos p of (px, py) \<Rightarrow>
                      Inr (w\<lparr>players :=
                        AList.map_entry k (\<lambda>q. q\<lparr>pos := (px + dx, py + dy)\<rparr>)
                          (players w)\<rparr>)))
             else Inr w)
          else if action = Some ''shoot'' then
            (let dx = get_default (m_dx msg) 0; dy = get_default (m_dy msg) 0 in
             if pid_in pid (players w) then
               (case getitem (players w) pid of
                  Inl e \<Rightarrow> Inl e
                | Inr (k, p) \<Rightarrow>
                   (case pos p of (px, py) \<Rightarrow>
                      (let bullet_speed = 10 in
                       Inr (w\<lparr>bullets := bullets w @
                         [\<lparr>b_x = px, b_y = py, b_dx = dx * bullet_speed,
                           b_dy = dy * bullet_speed, owner_id = k\<rparr>]\<rparr>))))
             else Inr w)
          else Inr w)"

text \<open>The \<open>finally\<close> block of \<open>handle_client\<close>, for the thread of \<open>player_id\<close> on \<open>conn\<close>.\<close>

definition handle_client_finally :: "conn \<Rightarrow> int \<Rightarrow> world \<Rightarrow> error + world" where
  "handle_client_finally conn player_id w =
     (case (if has_key (players w) player_id then delitem (players w) player_id
            else Inr (players w)) of
        Inl e \<Rightarrow> Inl e
      | Inr ps \<Rightarrow>
         (case (if conn \<in> set (client_sockets w) then list_remove (client_sockets w) conn
                else Inr (client_sockets w)) of
            Inl e \<Rightarrow> Inl e
          | Inr cs \<Rightarrow>
             (case (if has_key (player_connections w) player_id
                    then delitem (player_connections w) player_id
                    else Inr (player_connections w)) of
                Inl e \<Rightarrow> Inl e
              | Inr pc \<Rightarrow>
                  Inr (w\<lparr>players := ps, client_sockets := cs, player_connections := pc\<rparr>))))"

subsection \<open>\<open>check_bullet_collisions\<close>\<close>

text \<open>The bounding-box test of one bullet against one player's data.\<close>

definition overlap :: "bullet \<Rightarrow> player \<Rightarrow> bool" where
  "overlap b pdata =
     (let bx = b_x b; by = b_y b;
          bullet_left = bx - 4; bullet_right = bx + 4;
          bullet_top = by - 4; bullet_bottom = by + 4 in
      case pos pdata of (px, py) \<Rightarrow>
        (let player_left = px - 10; player_right = px + 10;
             player_top = py - 10; player_bottom = py + 10 in
         bullet_right \<ge> player_left \<and> bullet_left \<le> player_right \<and>
         bullet_bottom \<ge> player_top \<and> bullet_top \<le> player_bottom))"

text \<open>
  The body of the collision branch. \<open>pdata\<close> is the dictionary stored under \<open>pid\<close>, so
  its mutation is a change of that entry of \<open>players\<close>; \<open>h\<close> is \<open>pdata["health"]\<close>
  after the subtraction.
\<close>

definition apply_hit :: "int \<Rightarrow> int \<Rightarrow> player \<Rightarrow> players_dict \<Rightarrow> players_dict" where
  "apply_hit owner pid pdata ps =
     (let h = health pdata - 25;
          ps1 = AList.map_entry pid (\<lambda>q. q\<lparr>health := h\<rparr>) ps in
      if h \<le> 0 then
        (let ps2 = (if has_key ps1 owner
                    then AList.map_entry owner (\<lambda>q. q\<lparr>kills := kills q + 1\<rparr>) ps1
                    else ps1) in
         AList.map_entry pid (\<lambda>q. q\<lparr>is_dead := True, health := 0\<rparr>) ps2)
      else ps1)"

text \<open>
  The inner loop over \<open>list(players.items())\<close> for one bullet: the first argument list
  is the snapshot of the items, the second the live dictionary. The result is the
  dictionary and \<open>hit_something\<close>.
\<close>

fun collide_bullet :: "bullet \<Rightarrow> (int \<times> player) list \<Rightarrow> players_dict \<Rightarrow> players_dict \<times> bool" where
  "collide_bullet b [] ps = (ps, False)"
| "collide_bullet b ((pid, pdata) # items) ps =
     (if pid = owner_id b \<or> is_dead pdata then collide_bullet b items ps
      else if overlap b pdata then (apply_hit (owner_id b) pid pdata ps, True)
      else collide_bullet b items ps)"

text \<open>The outer loop over \<open>bullets\<close>, with \<open>surviving_bullets\<close> as accumulator.\<close>

fun check_loop :: "bullet list \<Rightarrow> players_dict \<Rightarrow> bullet list \<Rightarrow> players_dict \<times> bullet list" where
  "check_loop [] ps surviving_bullets = (ps, surviving_bullets)"
| "check_loop (b # bs) ps surviving_bullets =
     (case collide_bullet b ps ps of
        (ps', hit_something) \<Rightarrow>
          check_loop bs ps'
            (if \<not> hit_something then surviving_bullets @ [b] else surviving_bullets))"

definition check_bullet_collisions :: "world \<Rightarrow> world" where
  "check_bullet_collisions w =
     (case check_loop (bullets w) (players w) [] of
        (ps, surviving_bullets) \<Rightarrow> w\<lparr>players := ps, bullets := surviving_bullets\<rparr>)"

subsection \<open>\<open>broadcast_game_state\<close> and \<open>game_loop\<close>\<close>

text \<open>\<open>now\<close> is the value of \<open>time.time()\<close>. A failed \<open>sendall\<close> is swallowed.\<close>

definition broadcast_game_state :: "real \<Rightarrow> world \<Rightarrow> snapshot \<times> event list" where
  "broadcast_game_state now w =
     (let time_left = (case game_start_time w of
                         Some t \<Rightarrow> (let elapsed = now - t in max 0 (GAME_DURATION - elapsed))
                       | None \<Rightarrow> GAME_DURATION);
          game_state = \<lparr>s_players = players w, s_bullets = bullets w, time_left = time_left\<rparr>
      in (game_state, map (\<lambda>cs. Sendall cs (Game_state game_state)) (client_sockets w)))"

definition move_bullet :: "bullet \<Rightarrow> bullet" where
  "move_bullet b = b\<lparr>b_x := b_x b + b_dx b, b_y := b_y b + b_dy b\<rparr>"

definition in_bounds :: "bullet \<Rightarrow> bool" where
  "in_bounds b = (0 \<le> b_x b \<and> b_x b \<le> 800 \<and> 0 \<le> b_y b \<and> b_y b \<le> 600)"

text \<open>One iteration of \<open>game_loop\<close> under the lock.\<close>

definition game_loop_tick :: "real \<Rightarrow> world \<Rightarrow> world \<times> snapshot \<times> event list" where
  "game_loop_tick now w =
     (let w1 = w\<lparr>bullets := map move_bullet (bullets w)\<rparr>;
          w2 = w1\<lparr>bullets := filter in_bounds (bullets w1)\<rparr>;
          w3 = check_bullet_collisions w2
      in (w3, broadcast_game_state now w3))"

subsection \<open>\<open>main\<close>: one accepted connection\<close>

text \<open>
  One iteration of the accept loop for the connection \<open>conn\<close>; \<open>col\<close> stands for the three
  \<open>random.randint(50, 255)\<close> draws and \<open>now\<close> for \<open>time.time()\<close>. \<open>new_player\<close> is
  the dictionary literal stored for the new player.
\<close>

definition new_player :: "nat \<times> nat \<times> nat \<Rightarrow> player" where
  "new_player col = \<lparr>pos = (400, 300), color = col, health = 100, kills = 0, is_dead = False\<rparr>"

definition main_accept :: "conn \<Rightarrow> nat \<times> nat \<times> nat \<Rightarrow> real \<Rightarrow> world \<Rightarrow> world \<times> event list" where
  "main_accept conn col now w =
     (if length (players w) \<ge> MAX_PLAYERS then
        (w, [Sendall conn Server_full, Close conn])
      else
        (let player_id = next_player_id w;
             w1 = w\<lparr>next_player_id := next_player_id w + 1\<rparr>;
             w2 = w1\<lparr>players := AList.update player_id (new_player col) (players w1)\<rparr>;
             w3 = w2\<lparr>client_sockets := client_sockets w2 @ [conn]\<rparr>;
             w4 = w3\<lparr>player_connections := AList.update player_id conn (player_connections w3)\<rparr>;
             w5 = (if game_start_time w4 = None \<and> length (players w4) \<ge> 4
                   then w4\<lparr>game_start_time := Some now\<rparr> else w4)
         in (w5, [Sendall conn (Handshake player_id MAX_PLAYERS), Start_thread conn player_id])))"

subsection \<open>Runs of the server\<close>

text \<open>
  The atomic steps the threads of the server take on the shared world. A message may
  name any player id, a thread may end at any time, and the clock readings are arbitrary:
  every run of the real server is a run of this model.
\<close>

datatype step = Accept conn "nat \<times> nat \<times> nat" real | Intent message
  | Disconnect conn int | Tick real

fun do_step :: "step \<Rightarrow> world \<Rightarrow> world" where
  "do_step (Accept conn col now) w = fst (main_accept conn col now w)"
| "do_step (Intent msg) w = (case handle_client_msg msg w of Inl e \<Rightarrow> w | Inr w' \<Rightarrow> w')"
| "do_step (Disconnect conn player_id) w =
     (case handle_client_finally conn player_id w of Inl e \<Rightarrow> w | Inr w' \<Rightarrow> w')"
| "do_step (Tick now) w = fst (game_loop_tick now w)"

fun run :: "step list \<Rightarrow> world \<Rightarrow> world" where
  "run [] w = w"
| "run (s # ss) w = run ss (do_step s w)"

subsection \<open>Example worlds\<close>

definition w_ex :: world where
  "w_ex = init_world\<lparr>players :=
     [(0, \<lparr>pos = (400, 300), color = (50, 50, 50), health = 100, kills = 1, is_dead = False\<rparr>),
      (1, \<lparr>pos = (400, 300), color = (60, 60, 60), health = 0, kills = 0, is_dead = True\<rparr>)]\<rparr>"

definition five_joined :: world where
  "five_joined = run [Accept 0 (50, 60, 70) 1, Accept 1 (51, 60, 70) 2, Accept 2 (52, 60, 70) 3,
     Accept 3 (53, 60, 70) 4, Accept 4 (54, 60, 70) 5] init_world"

definition w_tick :: world where
  "w_tick = init_world\<lparr>players := [(0, new_player (50, 60, 70))],
     bullets := [\<lparr>b_x = 790, b_y = 300, b_dx = 10, b_dy = 0, owner_id = 0\<rparr>,
                 \<lparr>b_x = 795, b_y = 300, b_dx = 10, b_dy = 0, owner_id = 0\<rparr>]\<rparr>"

text \<open>Until the session clock starts, fewer than four players are registered.\<close>

definition start_inv :: "world \<Rightarrow> bool" where
  "start_inv w = (game_start_time w = None \<longrightarrow> length (players w) < 4)"

definition three_joined :: world where
  "three_joined = run [Accept 0 (50, 60, 70) 1, Accept 1 (51, 60, 70) 2, Accept 2 (52, 60, 70) 3]
     init_world"

subsection \<open>The collision rule in the words of the specification\<close>

text \<open>
  The specification's reading of the inner loop: a player is eligible for a bullet when it
  is not the owner, is not dead and its box overlaps the bullet's; the player hit is the
  first eligible one in the enumeration order of \<open>players\<close>.
\<close>

definition spec_eligible :: "bullet \<Rightarrow> int \<times> player \<Rightarrow> bool" where
  "spec_eligible b e = (fst e \<noteq> owner_id b \<and> \<not> is_dead (snd e) \<and> overlap b (snd e))"

definition spec_first_hit :: "bullet \<Rightarrow> players_dict \<Rightarrow> (int \<times> player) option" where
  "spec_first_hit b ps = find (spec_eligible b) ps"

definition duel :: players_dict where
  "duel = [(0, new_player (50, 60, 70)), (1, (new_player (51, 60, 70))\<lparr>health := 25\<rparr>),
           (2, new_player (52, 60, 70))]"

definition shot :: bullet where
  "shot = \<lparr>b_x = 400, b_y = 300, b_dx = 10, b_dy = 0, owner_id = 0\<rparr>"


subsection \<open>Invariants of the world\<close>

text \<open>
  The keys of \<open>players\<close> are distinct and below \<open>next_player_id\<close>, and every stored
  player has a health in [0, 100] that is 0 exactly when \<open>is_dead\<close> is set.
\<close>

definition health_ok :: "player \<Rightarrow> bool" where
  "health_ok p = (0 \<le> health p \<and> health p \<le> 100 \<and> ((health p = 0) = is_dead p))"

definition world_inv :: "world \<Rightarrow> bool" where
  "world_inv w = (distinct (map fst (players w)) \<and>
     (\<forall>e \<in> set (players w). fst e < next_player_id w \<and> health_ok (snd e)))"

text \<open>A run in which player 0 kills player 1 with four bullets.\<close>

definition shoot_right :: "int \<Rightarrow> message" where
  "shoot_right k = \<lparr>m_action = Some ''shoot'', m_player_id = Some k, m_dx = Some 1, m_dy = Some 0\<rparr>"

definition kill_run :: "step list" where
  "kill_run = [Accept 0 (50, 60, 70) 1, Accept 1 (51, 60, 70) 2, Intent (shoot_right 0),
     Intent (shoot_right 0), Intent (shoot_right 0), Intent (shoot_right 0), Tick 3]"

definition after_kill :: world where
  "after_kill = run kill_run init_world"

text \<open>
  The player stored under \<open>k\<close>, if any, is dead with health \<open>h\<close>.
\<close>

definition dead_or_gone :: "int \<Rightarrow> int \<Rightarrow> players_dict \<Rightarrow> bool" where
  "dead_or_gone k h ps = (case map_of ps k of None \<Rightarrow> True | Some p \<Rightarrow> is_dead p \<and> health p = h)"

text \<open>Steps taken after the kill: the dead player and the killer shoot, a tick, an admission.\<close>

definition later_run :: "step list" where
  "later_run = [Intent (shoot_right 1), Intent (shoot_right 0), Tick 4, Accept 2 (52, 60, 70) 5]"

text \<open>
  Scenario A: two admitted players moved to (0, 0) and (10, 0); player 0 then sends three
  shoot messages with direction (1, 0) before the next tick.
\<close>

definition move_by :: "int \<Rightarrow> real \<Rightarrow> real \<Rightarrow> message" where
  "move_by k dx dy = \<lparr>m_action = Some ''move'', m_player_id = Some k, m_dx = Some dx, m_dy = Some dy\<rparr>"

definition scenario_A :: world where
  "scenario_A = run [Accept 0 (50, 60, 70) 1, Accept 1 (51, 60, 70) 2,
     Intent (move_by 0 (-400) (-300)), Intent (move_by 1 (-390) (-300))] init_world"

definition three_shots :: "int \<Rightarrow> real \<Rightarrow> step list" where
  "three_shots k now = [Intent (shoot_right k), Intent (shoot_right k), Intent (shoot_right k), Tick now]"

section \<open>Properties\<close>

subsection \<open>Auxiliary facts\<close>

lemma map_of_has_key: "map_of d k = Some p \<Longrightarrow> has_key d k"
  unfolding has_key_def by (metis map_of_eq_None_iff option.distinct(1) set_map)

lemma handle_unknown:
  "\<not> pid_in (m_player_id msg) (players w) \<Longrightarrow> handle_client_msg msg w = Inr w"
  by (simp add: handle_client_msg_def Let_def)

lemma handle_dead:
  "m_player_id msg = Some k \<Longrightarrow> map_of (players w) k = Some p \<Longrightarrow> is_dead p
   \<Longrightarrow> handle_client_msg msg w = Inr w"
  by (simp add: handle_client_msg_def Let_def getitem_def pid_in_def map_of_has_key)

lemma has_key_delete: "\<not> has_key (AList.delete k d) k"
  by (simp add: has_key_def AList.delete_keys)

lemma accept_admit:
  "length (players w) < 5 \<Longrightarrow>
   fst (main_accept conn col now w) =
     w\<lparr>next_player_id := next_player_id w + 1,
       players := AList.update (next_player_id w) (new_player col) (players w),
       client_sockets := client_sockets w @ [conn],
       player_connections := AList.update (next_player_id w) conn (player_connections w),
       game_start_time :=
         (if game_start_time w = None \<and>
             length (AList.update (next_player_id w) (new_player col) (players w)) \<ge> 4
          then Some now else game_start_time w)\<rparr>"
  by (simp add: main_accept_def MAX_PLAYERS_def Let_def)

lemma five_joined_eq:
  "five_joined = \<lparr>players = [(0, new_player (50, 60, 70)), (1, new_player (51, 60, 70)),
     (2, new_player (52, 60, 70)), (3, new_player (53, 60, 70)), (4, new_player (54, 60, 70))],
     bullets = [], next_player_id = 5, client_sockets = [0, 1, 2, 3, 4],
     player_connections = [(0, 0), (1, 1), (2, 2), (3, 3), (4, 4)], game_start_time = Some 4\<rparr>"
  by (simp add: five_joined_def init_world_def accept_admit)

lemma has_key_map_of: "has_key d k \<Longrightarrow> \<exists>p. map_of d k = Some p"
  unfolding has_key_def by (induction d) auto

lemma pid_in_SomeD: "pid_in pid d \<Longrightarrow> \<exists>k. pid = Some k \<and> has_key d k"
  by (cases pid) (simp_all add: pid_in_def)

lemma handle_live:
  assumes "m_player_id msg = Some k" "map_of (players w) k = Some p" "\<not> is_dead p"
  shows "handle_client_msg msg w =
     (if m_action msg = Some ''move'' then
        Inr (w\<lparr>players := AList.map_entry k
          (\<lambda>q. q\<lparr>pos := (fst (pos p) + get_default (m_dx msg) 0,
                        snd (pos p) + get_default (m_dy msg) 0)\<rparr>) (players w)\<rparr>)
      else if m_action msg = Some ''shoot'' then
        Inr (w\<lparr>bullets := bullets w @
          [\<lparr>b_x = fst (pos p), b_y = snd (pos p), b_dx = get_default (m_dx msg) 0 * 10,
            b_dy = get_default (m_dy msg) 0 * 10, owner_id = k\<rparr>]\<rparr>)
      else Inr w)"
  using assms map_of_has_key [OF assms(2)]
  by (simp add: handle_client_msg_def Let_def getitem_def pid_in_def split_beta)

lemma handle_cases:
  obtains (noop) "handle_client_msg msg w = Inr w"
  | (move) k p where "m_player_id msg = Some k" "map_of (players w) k = Some p" "\<not> is_dead p"
      "handle_client_msg msg w = Inr (w\<lparr>players := AList.map_entry k
          (\<lambda>q. q\<lparr>pos := (fst (pos p) + get_default (m_dx msg) 0,
                        snd (pos p) + get_default (m_dy msg) 0)\<rparr>) (players w)\<rparr>)"
  | (shoot) k p where "m_player_id msg = Some k" "map_of (players w) k = Some p" "\<not> is_dead p"
      "handle_client_msg msg w = Inr (w\<lparr>bullets := bullets w @
          [\<lparr>b_x = fst (pos p), b_y = snd (pos p), b_dx = get_default (m_dx msg) 0 * 10,
            b_dy = get_default (m_dy msg) 0 * 10, owner_id = k\<rparr>]\<rparr>)"
proof (cases "pid_in (m_player_id msg) (players w)")
  case False
  then show ?thesis using handle_unknown [of msg w] noop by blast
next
  case True
  obtain k where k: "m_player_id msg = Some k" and hk: "has_key (players w) k"
    using pid_in_SomeD [OF True] by blast
  obtain p where p: "map_of (players w) k = Some p"
    using has_key_map_of [OF hk] by blast
  show ?thesis
  proof (cases "is_dead p")
    case True
    then show ?thesis using handle_dead [OF k p] noop by blast
  next
    case False
    note live = handle_live [OF k p False]
    show ?thesis
    proof (cases "m_action msg = Some ''move''")
      case True
      then show ?thesis using live move [OF k p False] by simp
    next
      case nm: False
      show ?thesis
      proof (cases "m_action msg = Some ''shoot''")
        case True
        then show ?thesis using live nm shoot [OF k p False] by simp
      next
        case False
        then show ?thesis using live nm noop by simp
      qed
    qed
  qed
qed


lemma keys_map_entry: "map fst (AList.map_entry k f d) = map fst d"
  by (induction d) auto

lemma has_key_map_entry: "has_key (AList.map_entry k f d) k' = has_key d k'"
  by (simp add: has_key_def keys_map_entry)

lemma keys_apply_hit: "map fst (apply_hit owner pid pdata ps) = map fst ps"
  by (simp add: apply_hit_def Let_def keys_map_entry)

lemma keys_collide_bullet: "map fst (fst (collide_bullet b items ps)) = map fst ps"
  by (induction b items ps rule: collide_bullet.induct) (simp_all add: keys_apply_hit)

lemma keys_check_loop: "map fst (fst (check_loop bs ps acc)) = map fst ps"
proof (induction bs arbitrary: ps acc)
  case Nil
  show ?case by simp
next
  case (Cons b bs)
  obtain ps' h where c: "collide_bullet b ps ps = (ps', h)" by (cases "collide_bullet b ps ps")
  have "map fst ps' = map fst ps" using keys_collide_bullet [of b ps ps] c by simp
  then show ?case using c Cons.IH [of ps'] by simp
qed

lemma surviving_check_loop: "set (snd (check_loop bs ps acc)) \<subseteq> set acc \<union> set bs"
proof (induction bs arbitrary: ps acc)
  case Nil
  show ?case by simp
next
  case (Cons b bs)
  obtain ps' h where c: "collide_bullet b ps ps = (ps', h)" by (cases "collide_bullet b ps ps")
  show ?case
  proof (cases h)
    case True
    then show ?thesis using c Cons.IH [of ps' acc] by auto
  next
    case False
    then show ?thesis using c Cons.IH [of ps' "acc @ [b]"] by auto
  qed
qed

lemma check_bullet_collisions_eq:
  "check_bullet_collisions w =
     w\<lparr>players := fst (check_loop (bullets w) (players w) []),
       bullets := snd (check_loop (bullets w) (players w) [])\<rparr>"
  by (simp add: check_bullet_collisions_def split_beta)

lemma tick_world:
  "fst (game_loop_tick now w) =
     w\<lparr>bullets := snd (check_loop (filter in_bounds (map move_bullet (bullets w))) (players w) []),
       players := fst (check_loop (filter in_bounds (map move_bullet (bullets w))) (players w) [])\<rparr>"
  by (simp add: game_loop_tick_def Let_def check_bullet_collisions_eq)

lemma tick_snapshot:
  "snd (game_loop_tick now w) = broadcast_game_state now (fst (game_loop_tick now w))"
  by (simp add: game_loop_tick_def Let_def)

lemma finally_eq:
  "handle_client_finally conn player_id w =
     Inr (w\<lparr>players := AList.delete player_id (players w),
           client_sockets := remove1 conn (client_sockets w),
           player_connections := AList.delete player_id (player_connections w)\<rparr>)"
  by (simp add: handle_client_finally_def delitem_def list_remove_def has_key_def remove1_idem)

lemma accept_full: "\<not> length (players w) < 5 \<Longrightarrow> fst (main_accept conn col now w) = w"
  by (simp add: main_accept_def MAX_PLAYERS_def)

lemma length_update:
  "length (AList.update k v d) = (if k \<in> set (map fst d) then length d else Suc (length d))"
  by (induction d) auto

lemma intent_start: "game_start_time (do_step (Intent msg) w) = game_start_time w"
  by (cases rule: handle_cases [of msg w]) simp_all

lemma intent_length: "length (players (do_step (Intent msg) w)) = length (players w)"
proof (cases rule: handle_cases [of msg w])
  case (move k p)
  then show ?thesis using arg_cong [OF keys_map_entry, of length] by simp
qed simp_all

lemma tick_length: "length (players (do_step (Tick now) w)) = length (players w)"
  using arg_cong [OF keys_check_loop, of length] by (simp add: tick_world)

lemma step_start_kept:
  "game_start_time w = Some t \<Longrightarrow> game_start_time (do_step s w) = Some t"
proof (cases s)
  case (Accept conn col now)
  then show "game_start_time w = Some t \<Longrightarrow> ?thesis"
    by (cases "length (players w) < 5") (simp_all add: accept_admit accept_full)
next
  case (Intent msg)
  then show "game_start_time w = Some t \<Longrightarrow> ?thesis" by (simp only: intent_start)
next
  case (Disconnect conn pid)
  then show "game_start_time w = Some t \<Longrightarrow> ?thesis" by (simp add: finally_eq)
next
  case (Tick now)
  then show "game_start_time w = Some t \<Longrightarrow> ?thesis" by (simp add: tick_world)
qed

lemma step_start_set:
  assumes "game_start_time w = None" "game_start_time (do_step s w) = Some t"
  shows "(\<exists>conn col. s = Accept conn col t) \<and> length (players w) < MAX_PLAYERS \<and>
         4 \<le> length (players (do_step s w))"
proof (cases s)
  case (Accept conn col now)
  show ?thesis
  proof (cases "length (players w) < 5")
    case True
    have "game_start_time (do_step s w) =
        (if 4 \<le> length (players (do_step s w)) then Some now else None)"
      using True Accept assms(1) by (simp add: accept_admit)
    with assms(2) have "now = t" and g: "4 \<le> length (players (do_step s w))"
      by (simp_all split: if_splits)
    with Accept have "\<exists>conn col. s = Accept conn col t" by blast
    moreover have "length (players w) < MAX_PLAYERS" using True by (simp add: MAX_PLAYERS_def)
    ultimately show ?thesis using g by (intro conjI)
  next
    case False
    then show ?thesis using assms Accept by (simp add: accept_full)
  qed
next
  case (Intent msg)
  then show ?thesis using assms intent_start [of msg w] by simp
next
  case (Disconnect conn pid)
  then show ?thesis using assms by (simp add: finally_eq)
next
  case (Tick now)
  then show ?thesis using assms by (simp add: tick_world)
qed

lemma start_inv_step: assumes "start_inv w" shows "start_inv (do_step s w)"
proof (cases "game_start_time (do_step s w)")
  case (Some t)
  then show ?thesis by (simp add: start_inv_def)
next
  case None
  then have n: "game_start_time w = None"
    using step_start_kept [of w _ s] by (cases "game_start_time w") simp_all
  with assms have l: "length (players w) < 4" by (simp add: start_inv_def)
  show ?thesis
  proof (cases s)
    case (Accept conn col now)
    then show ?thesis using None n l
      by (simp add: start_inv_def accept_admit split: if_splits)
  next
    case (Intent msg)
    then show ?thesis using l intent_length [of msg w] by (simp add: start_inv_def)
  next
    case (Disconnect conn pid)
    then show ?thesis using l AList.length_delete_le [of pid "players w"]
      by (simp add: start_inv_def finally_eq)
  next
    case (Tick now)
    then show ?thesis using l tick_length [of now w] by (simp add: start_inv_def)
  qed
qed

lemma start_inv_run: "start_inv w \<Longrightarrow> start_inv (run ss w)"
  by (induction ss arbitrary: w) (simp_all add: start_inv_step)

lemma start_inv_init: "start_inv init_world"
  by (simp add: start_inv_def init_world_def)

lemma tick_time_left:
  "time_left (fst (snd (game_loop_tick now w))) =
     (case game_start_time w of None \<Rightarrow> 300 | Some t \<Rightarrow> max 0 (300 - (now - t)))"
  by (simp add: tick_snapshot tick_world broadcast_game_state_def Let_def GAME_DURATION_def
      split: option.splits)

lemma three_joined_eq:
  "three_joined = \<lparr>players = [(0, new_player (50, 60, 70)), (1, new_player (51, 60, 70)),
     (2, new_player (52, 60, 70))],
     bullets = [], next_player_id = 3, client_sockets = [0, 1, 2],
     player_connections = [(0, 0), (1, 1), (2, 2)], game_start_time = None\<rparr>"
  by (simp add: three_joined_def init_world_def accept_admit)

lemma map_of_map_entry_at:
  "map_of (AList.map_entry k' f xs) k =
     (if k = k' then map_option f (map_of xs k) else map_of xs k)"
  by (induction xs) auto

lemma collide_bullet_find:
  "collide_bullet b items ps =
     (case find (spec_eligible b) items of
        None \<Rightarrow> (ps, False)
      | Some (pid, pdata) \<Rightarrow> (apply_hit (owner_id b) pid pdata ps, True))"
  by (induction b items ps rule: collide_bullet.induct) (auto simp: spec_eligible_def)

lemma apply_hit_lookup:
  assumes "map_of ps vid = Some v" "owner \<noteq> vid"
  shows "map_of (apply_hit owner vid v ps) k =
     (if k = vid then
        Some (if health v - 25 \<le> 0 then v\<lparr>health := 0, is_dead := True\<rparr>
              else v\<lparr>health := health v - 25\<rparr>)
      else if k = owner \<and> health v - 25 \<le> 0 then
        map_option (\<lambda>q. q\<lparr>kills := kills q + 1\<rparr>) (map_of ps k)
      else map_of ps k)"
proof (cases "health v - 25 \<le> 0")
  case False
  then show ?thesis using assms by (simp add: apply_hit_def Let_def map_of_map_entry_at)
next
  case True
  show ?thesis
  proof (cases "has_key ps owner")
    case hk: True
    then show ?thesis using assms True
      by (simp add: apply_hit_def Let_def map_of_map_entry_at has_key_map_entry)
  next
    case nk: False
    then have "map_of ps owner = None"
      by (simp add: has_key_def map_of_eq_None_iff)
    then show ?thesis using assms True nk
      by (simp add: apply_hit_def Let_def map_of_map_entry_at has_key_map_entry)
  qed
qed

lemma apply_hit_others:
  assumes "k \<noteq> vid"
  shows "map_option health (map_of (apply_hit owner vid v ps) k) = map_option health (map_of ps k)"
    and "map_option is_dead (map_of (apply_hit owner vid v ps) k) = map_option is_dead (map_of ps k)"
    and "map_option pos (map_of (apply_hit owner vid v ps) k) = map_option pos (map_of ps k)"
  using assms
  by (simp_all add: apply_hit_def Let_def map_of_map_entry_at has_key_map_entry option.map_comp comp_def)

lemma find_distinct_lookup:
  assumes "distinct (map fst ps)" "find P ps = Some (k, v)"
  shows "map_of ps k = Some v"
proof -
  from assms(2) have "(k, v) \<in> set ps"
    by (auto simp: find_Some_iff in_set_conv_nth)
  with assms(1) show ?thesis by simp
qed



lemma shot_first_hit: "spec_first_hit shot duel = Some (1, (new_player (51, 60, 70))\<lparr>health := 25\<rparr>)"
  by (simp add: spec_first_hit_def spec_eligible_def duel_def shot_def overlap_def Let_def
      new_player_def)


lemma in_update: "e \<in> set (AList.update k v d) \<Longrightarrow> e = (k, v) \<or> e \<in> set d"
  by (induction d) (auto split: if_splits)

lemma in_map_entry:
  "e \<in> set (AList.map_entry k f d) \<Longrightarrow> e \<in> set d \<or> (\<exists>v. (k, v) \<in> set d \<and> e = (k, f v))"
  by (induction d) (auto split: if_splits)

lemma in_delete: "e \<in> set (AList.delete k d) \<Longrightarrow> e \<in> set d"
  by (simp add: AList.delete_eq)

lemma values_apply_hit:
  assumes d: "distinct (map fst ps)"
    and ok: "\<forall>e \<in> set ps. health_ok (snd e)"
    and v: "map_of ps vid = Some v" "\<not> is_dead v" "owner \<noteq> vid"
    and e: "e \<in> set (apply_hit owner vid v ps)"
  shows "health_ok (snd e)"
proof -
  obtain k p where kp: "e = (k, p)" by (cases e)
  have d': "distinct (map fst (apply_hit owner vid v ps))" using d by (simp add: keys_apply_hit)
  have look: "map_of (apply_hit owner vid v ps) k = Some p"
    using e kp d' by simp
  have okv: "health_ok v" using ok v(1) d map_of_SomeD [OF v(1)] by force
  show ?thesis
  proof (cases "k = vid")
    case True
    then show ?thesis using look okv v(2) apply_hit_lookup [OF v(1) v(3), of k]
      by (auto simp: kp health_ok_def split: if_splits)
  next
    case False
    show ?thesis
    proof (cases "map_of ps k")
      case None
      then show ?thesis using look False apply_hit_lookup [OF v(1) v(3), of k]
        by (simp split: if_splits)
    next
      case (Some q)
      then have "health_ok q" using ok map_of_SomeD [OF Some] by force
      then show ?thesis using look False Some apply_hit_lookup [OF v(1) v(3), of k]
        by (auto simp: kp health_ok_def split: if_splits)
    qed
  qed
qed

lemma first_hit_facts:
  assumes "distinct (map fst ps)" and "spec_first_hit b ps = Some (vid, v)"
  shows "map_of ps vid = Some v" and "owner_id b \<noteq> vid" and "\<not> is_dead v" and "overlap b v"
    and "collide_bullet b ps ps = (apply_hit (owner_id b) vid v ps, True)"
proof -
  have f: "find (spec_eligible b) ps = Some (vid, v)"
    using assms(2) by (simp add: spec_first_hit_def)
  show "map_of ps vid = Some v" by (rule find_distinct_lookup [OF assms(1) f])
  have "spec_eligible b (vid, v)" using f by (auto simp: find_Some_iff)
  then show "owner_id b \<noteq> vid" and "\<not> is_dead v" and "overlap b v"
    by (auto simp: spec_eligible_def)
  show "collide_bullet b ps ps = (apply_hit (owner_id b) vid v ps, True)"
    by (simp add: collide_bullet_find f)
qed

lemma no_hit_facts:
  assumes "spec_first_hit b ps = None"
  shows "collide_bullet b ps ps = (ps, False)"
  using assms by (simp add: collide_bullet_find spec_first_hit_def)

lemma values_collide_bullet:
  assumes d: "distinct (map fst ps)" and ok: "\<forall>e \<in> set ps. health_ok (snd e)"
  shows "\<forall>e \<in> set (fst (collide_bullet b ps ps)). health_ok (snd e)"
proof (cases "spec_first_hit b ps")
  case None
  then show ?thesis using ok by (simp add: no_hit_facts)
next
  case (Some a)
  obtain vid v where a: "a = (vid, v)" by (cases a)
  note f = first_hit_facts [OF d Some [unfolded a]]
  show ?thesis
    using values_apply_hit [OF d ok f(1) f(3) f(2)] by (simp add: f(5))
qed

lemma values_check_loop:
  assumes "distinct (map fst ps)" and "\<forall>e \<in> set ps. health_ok (snd e)"
  shows "\<forall>e \<in> set (fst (check_loop bs ps acc)). health_ok (snd e)"
  using assms
proof (induction bs arbitrary: ps acc)
  case Nil
  then show ?case by simp
next
  case (Cons b bs)
  obtain ps' h where c: "collide_bullet b ps ps = (ps', h)" by (cases "collide_bullet b ps ps")
  have d': "distinct (map fst ps')"
    using keys_collide_bullet [of b ps ps] c Cons.prems(1) by simp
  have ok': "\<forall>e \<in> set ps'. health_ok (snd e)"
    using values_collide_bullet [OF Cons.prems, of b] c by simp
  show ?case using c Cons.IH [OF d' ok'] by simp
qed

lemma world_inv_accept: assumes "world_inv w" shows "world_inv (do_step (Accept conn col now) w)"
proof (cases "length (players w) < 5")
  case False
  then show ?thesis using assms by (simp add: accept_full)
next
  case True
  have fresh: "next_player_id w \<notin> fst ` set (players w)"
    using assms by (auto simp: world_inv_def)
  have "distinct (map fst (AList.update (next_player_id w) (new_player col) (players w)))"
    using assms by (simp add: world_inv_def distinct_update)
  moreover have "fst e < next_player_id w + 1 \<and> health_ok (snd e)"
    if "e \<in> set (AList.update (next_player_id w) (new_player col) (players w))" for e
    using in_update [OF that] assms
    by (auto simp: world_inv_def health_ok_def new_player_def)
  ultimately show ?thesis using True by (simp add: accept_admit world_inv_def)
qed

lemma world_inv_intent: assumes "world_inv w" shows "world_inv (do_step (Intent msg) w)"
proof (cases rule: handle_cases [of msg w])
  case noop
  then show ?thesis using assms by simp
next
  case (shoot k p)
  then show ?thesis using assms by (simp add: world_inv_def)
next
  case (move k p)
  let ?f = "\<lambda>q. q\<lparr>pos := (fst (pos p) + get_default (m_dx msg) 0,
                        snd (pos p) + get_default (m_dy msg) 0)\<rparr>"
  have "fst e < next_player_id w \<and> health_ok (snd e)"
    if "e \<in> set (AList.map_entry k ?f (players w))" for e
    using in_map_entry [OF that] assms by (auto simp: world_inv_def health_ok_def)
  moreover have "distinct (map fst (AList.map_entry k ?f (players w)))"
    using assms by (simp add: world_inv_def keys_map_entry)
  ultimately show ?thesis using move(4) by (simp add: world_inv_def)
qed

lemma world_inv_disconnect:
  assumes "world_inv w" shows "world_inv (do_step (Disconnect conn pid) w)"
  using assms in_delete [of _ pid "players w"]
  by (auto simp: world_inv_def finally_eq distinct_delete)

lemma world_inv_tick: assumes "world_inv w" shows "world_inv (do_step (Tick now) w)"
proof -
  let ?bs = "filter in_bounds (map move_bullet (bullets w))"
  let ?ps = "fst (check_loop ?bs (players w) [])"
  have k: "map fst ?ps = map fst (players w)" by (rule keys_check_loop)
  have d: "distinct (map fst (players w))" and ok: "\<forall>e \<in> set (players w). health_ok (snd e)"
    using assms by (simp_all add: world_inv_def)
  have v: "\<forall>e \<in> set ?ps. health_ok (snd e)" by (rule values_check_loop [OF d ok])
  have b: "\<forall>e \<in> set ?ps. fst e < next_player_id w"
  proof
    fix e assume "e \<in> set ?ps"
    then have "fst e \<in> set (map fst ?ps)" by simp
    then have "fst e \<in> set (map fst (players w))" by (simp only: k)
    then show "fst e < next_player_id w" using assms by (auto simp: world_inv_def)
  qed
  show ?thesis using d k v b by (simp add: world_inv_def tick_world)
qed

lemma world_inv_step: "world_inv w \<Longrightarrow> world_inv (do_step s w)"
  by (cases s) (simp_all only: world_inv_accept world_inv_intent world_inv_disconnect world_inv_tick)

lemma world_inv_run: "world_inv w \<Longrightarrow> world_inv (run ss w)"
  by (induction ss arbitrary: w) (simp_all add: world_inv_step)

lemma world_inv_init: "world_inv init_world"
  by (simp add: world_inv_def init_world_def)

lemma shoot_right_step:
  "map_of (players w) k = Some p \<Longrightarrow> \<not> is_dead p \<Longrightarrow>
   do_step (Intent (shoot_right k)) w =
     w\<lparr>bullets := bullets w @
       [\<lparr>b_x = fst (pos p), b_y = snd (pos p), b_dx = 10, b_dy = 0, owner_id = k\<rparr>]\<rparr>"
  using handle_live [of "shoot_right k" k w p]
  by (simp add: shoot_right_def get_default_def)

lemma after_kill_eq:
  "after_kill = \<lparr>players = [(0, (new_player (50, 60, 70))\<lparr>kills := 1\<rparr>),
       (1, (new_player (51, 60, 70))\<lparr>health := 0, is_dead := True\<rparr>)],
     bullets = [], next_player_id = 2, client_sockets = [0, 1],
     player_connections = [(0, 0), (1, 1)], game_start_time = None\<rparr>"
proof -
  let ?w2 = "\<lparr>players = [(0, new_player (50, 60, 70)), (1, new_player (51, 60, 70))],
     bullets = [], next_player_id = 2, client_sockets = [0, 1],
     player_connections = [(0, 0), (1, 1)], game_start_time = None\<rparr>"
  let ?b = "\<lparr>b_x = 400, b_y = 300, b_dx = 10, b_dy = 0, owner_id = 0\<rparr>"
  have a: "run [Accept 0 (50, 60, 70) 1, Accept 1 (51, 60, 70) 2] init_world = ?w2"
    by (simp add: init_world_def accept_admit)
  have s: "do_step (Intent (shoot_right 0)) (?w2\<lparr>bullets := bs\<rparr>) = ?w2\<lparr>bullets := bs @ [?b]\<rparr>" for bs
    by (subst shoot_right_step [of _ 0 "new_player (50, 60, 70)"]) (simp_all add: new_player_def)
  have s4: "run [Intent (shoot_right 0), Intent (shoot_right 0), Intent (shoot_right 0),
      Intent (shoot_right 0)] ?w2 = ?w2\<lparr>bullets := [?b, ?b, ?b, ?b]\<rparr>"
    using s [of "[]"] s [of "[?b]"] s [of "[?b, ?b]"] s [of "[?b, ?b, ?b]"] by simp
  have t: "do_step (Tick 3) (?w2\<lparr>bullets := [?b, ?b, ?b, ?b]\<rparr>) =
      \<lparr>players = [(0, (new_player (50, 60, 70))\<lparr>kills := 1\<rparr>),
       (1, (new_player (51, 60, 70))\<lparr>health := 0, is_dead := True\<rparr>)],
     bullets = [], next_player_id = 2, client_sockets = [0, 1],
     player_connections = [(0, 0), (1, 1)], game_start_time = None\<rparr>"
    by (simp add: tick_world move_bullet_def in_bounds_def overlap_def Let_def apply_hit_def
        has_key_def new_player_def)
  have "after_kill = do_step (Tick 3) (run [Intent (shoot_right 0), Intent (shoot_right 0),
      Intent (shoot_right 0), Intent (shoot_right 0)]
        (run [Accept 0 (50, 60, 70) 1, Accept 1 (51, 60, 70) 2] init_world))"
    by (simp add: after_kill_def kill_run_def)
  then show ?thesis by (simp only: a s4 t)
qed

lemma dead_or_gone_cong:
  assumes "map_option health (map_of ps' k) = map_option health (map_of ps k)"
    and "map_option is_dead (map_of ps' k) = map_option is_dead (map_of ps k)"
    and "dead_or_gone k h ps"
  shows "dead_or_gone k h ps'"
  using assms by (cases "map_of ps k"; cases "map_of ps' k") (simp_all add: dead_or_gone_def)

lemma dead_collide_bullet:
  assumes d: "distinct (map fst ps)" and g: "dead_or_gone k h ps"
  shows "dead_or_gone k h (fst (collide_bullet b ps ps))"
proof (cases "spec_first_hit b ps")
  case None
  then show ?thesis using g by (simp add: no_hit_facts)
next
  case (Some a)
  obtain vid v where a: "a = (vid, v)" by (cases a)
  note f = first_hit_facts [OF d Some [unfolded a]]
  have ne: "k \<noteq> vid" using g f(1) f(3) by (auto simp: dead_or_gone_def)
  show ?thesis
    using dead_or_gone_cong [OF apply_hit_others(1) [OF ne] apply_hit_others(2) [OF ne] g]
    by (simp add: f(5))
qed

lemma dead_check_loop:
  assumes "distinct (map fst ps)" and "dead_or_gone k h ps"
  shows "dead_or_gone k h (fst (check_loop bs ps acc))"
  using assms
proof (induction bs arbitrary: ps acc)
  case Nil
  then show ?case by simp
next
  case (Cons b bs)
  obtain ps' hit where c: "collide_bullet b ps ps = (ps', hit)" by (cases "collide_bullet b ps ps")
  have d': "distinct (map fst ps')"
    using keys_collide_bullet [of b ps ps] c Cons.prems(1) by simp
  have g': "dead_or_gone k h ps'"
    using dead_collide_bullet [OF Cons.prems, of b] c by simp
  show ?case using c Cons.IH [OF d' g'] by simp
qed

lemma dead_step:
  assumes inv: "world_inv w" and lt: "k < next_player_id w" and g: "dead_or_gone k h (players w)"
  shows "k < next_player_id (do_step s w) \<and> dead_or_gone k h (players (do_step s w))"
proof (cases s)
  case (Accept conn col now)
  show ?thesis
  proof (cases "length (players w) < 5")
    case False
    then show ?thesis using Accept lt g by (simp add: accept_full)
  next
    case True
    have "map_of (AList.update (next_player_id w) (new_player col) (players w)) k
        = map_of (players w) k"
      using lt by (simp add: update_conv')
    then show ?thesis using Accept True lt g by (simp add: accept_admit dead_or_gone_def)
  qed
next
  case (Intent msg)
  show ?thesis
  proof (cases rule: handle_cases [of msg w])
    case noop
    then show ?thesis using Intent lt g by simp
  next
    case (shoot k' p)
    then show ?thesis using Intent lt g by simp
  next
    case (move k' p)
    let ?f = "\<lambda>q. q\<lparr>pos := (fst (pos p) + get_default (m_dx msg) 0,
                        snd (pos p) + get_default (m_dy msg) 0)\<rparr>"
    have "dead_or_gone k h (AList.map_entry k' ?f (players w))"
      by (rule dead_or_gone_cong [OF _ _ g])
         (simp_all add: map_of_map_entry_at option.map_comp comp_def)
    then show ?thesis using Intent lt move(4) by simp
  qed
next
  case (Disconnect conn pid)
  have "dead_or_gone k h (AList.delete pid (players w))"
    using g by (cases "k = pid") (simp_all add: dead_or_gone_def delete_conv')
  then show ?thesis using Disconnect lt by (simp add: finally_eq)
next
  case (Tick now)
  have "distinct (map fst (players w))" using inv by (simp add: world_inv_def)
  from dead_check_loop [OF this g] show ?thesis using Tick lt by (simp add: tick_world)
qed

lemma dead_run:
  assumes "world_inv w" "k < next_player_id w" "dead_or_gone k h (players w)"
  shows "dead_or_gone k h (players (run ss w))"
  using assms
proof (induction ss arbitrary: w)
  case Nil
  then show ?case by simp
next
  case (Cons s ss)
  have "world_inv (do_step s w)" by (rule world_inv_step [OF Cons.prems(1)])
  moreover note dead_step [OF Cons.prems, of s]
  ultimately show ?case using Cons.IH [of "do_step s w"] by simp
qed

lemma later_players:
  "players (run later_run after_kill) =
     [(0, (new_player (50, 60, 70))\<lparr>kills := 1\<rparr>),
      (1, (new_player (51, 60, 70))\<lparr>health := 0, is_dead := True\<rparr>),
      (2, new_player (52, 60, 70))]"
proof -
  let ?d = "(new_player (51, 60, 70))\<lparr>health := 0, is_dead := True\<rparr>"
  let ?o = "(new_player (50, 60, 70))\<lparr>kills := 1\<rparr>"
  have 1: "do_step (Intent (shoot_right 1)) after_kill = after_kill"
    using handle_dead [of "shoot_right 1" 1 after_kill ?d]
    by (simp add: shoot_right_def after_kill_eq)
  have 2: "do_step (Intent (shoot_right 0)) after_kill =
      after_kill\<lparr>bullets := [\<lparr>b_x = 400, b_y = 300, b_dx = 10, b_dy = 0, owner_id = 0\<rparr>]\<rparr>"
    by (subst shoot_right_step [of _ 0 ?o]) (simp_all add: after_kill_eq new_player_def)
  have 3: "do_step (Tick 4)
      (after_kill\<lparr>bullets := [\<lparr>b_x = 400, b_y = 300, b_dx = 10, b_dy = 0, owner_id = 0\<rparr>]\<rparr>) =
      after_kill\<lparr>bullets := [\<lparr>b_x = 410, b_y = 300, b_dx = 10, b_dy = 0, owner_id = 0\<rparr>]\<rparr>"
    by (simp add: after_kill_eq tick_world move_bullet_def in_bounds_def new_player_def)
  have 4: "players (do_step (Accept 2 (52, 60, 70) 5) (after_kill\<lparr>bullets := bs\<rparr>)) =
      [(0, ?o), (1, ?d), (2, new_player (52, 60, 70))]" for bs
    by (simp add: after_kill_eq accept_admit)
  show ?thesis by (simp only: later_run_def run.simps 1 2 3 4)
qed

lemma three_intents_world:
  assumes "map_of (players w) k = Some p" "\<not> is_dead p"
  shows "run [Intent (shoot_right k), Intent (shoot_right k), Intent (shoot_right k)] w =
     w\<lparr>bullets := bullets w @
       [\<lparr>b_x = fst (pos p), b_y = snd (pos p), b_dx = 10, b_dy = 0, owner_id = k\<rparr>,
        \<lparr>b_x = fst (pos p), b_y = snd (pos p), b_dx = 10, b_dy = 0, owner_id = k\<rparr>,
        \<lparr>b_x = fst (pos p), b_y = snd (pos p), b_dx = 10, b_dy = 0, owner_id = k\<rparr>]\<rparr>"
proof -
  have s: "do_step (Intent (shoot_right k)) (w\<lparr>bullets := bs\<rparr>) =
      w\<lparr>bullets := bs @ [\<lparr>b_x = fst (pos p), b_y = snd (pos p), b_dx = 10, b_dy = 0, owner_id = k\<rparr>]\<rparr>"
    for bs
    using shoot_right_step [of "w\<lparr>bullets := bs\<rparr>" k p] assms by simp
  have w: "w = w\<lparr>bullets := bullets w\<rparr>" by simp
  show ?thesis
    unfolding run.simps
    by (subst w, simp only: s) simp
qed

lemma three_shots_world:
  assumes "map_of (players w) k = Some p" "\<not> is_dead p"
  shows "run (three_shots k now) w =
     do_step (Tick now) (w\<lparr>bullets := bullets w @
       [\<lparr>b_x = fst (pos p), b_y = snd (pos p), b_dx = 10, b_dy = 0, owner_id = k\<rparr>,
        \<lparr>b_x = fst (pos p), b_y = snd (pos p), b_dx = 10, b_dy = 0, owner_id = k\<rparr>,
        \<lparr>b_x = fst (pos p), b_y = snd (pos p), b_dx = 10, b_dy = 0, owner_id = k\<rparr>]\<rparr>)"
proof -
  have "run (three_shots k now) w = do_step (Tick now)
      (run [Intent (shoot_right k), Intent (shoot_right k), Intent (shoot_right k)] w)"
    by (simp add: three_shots_def)
  then show ?thesis by (simp only: three_intents_world [OF assms])
qed

lemma one_shot_world:
  assumes "map_of (players w) k = Some p" "\<not> is_dead p"
  shows "run [Intent (shoot_right k), Tick now] w =
     do_step (Tick now) (w\<lparr>bullets := bullets w @
       [\<lparr>b_x = fst (pos p), b_y = snd (pos p), b_dx = 10, b_dy = 0, owner_id = k\<rparr>]\<rparr>)"
  using shoot_right_step [OF assms] by simp

lemma scenario_A_eq:
  "scenario_A = \<lparr>players = [(0, (new_player (50, 60, 70))\<lparr>pos := (0, 0)\<rparr>),
       (1, (new_player (51, 60, 70))\<lparr>pos := (10, 0)\<rparr>)],
     bullets = [], next_player_id = 2, client_sockets = [0, 1],
     player_connections = [(0, 0), (1, 1)], game_start_time = None\<rparr>"
proof -
  let ?w2 = "\<lparr>players = [(0, new_player (50, 60, 70)), (1, new_player (51, 60, 70))],
     bullets = [], next_player_id = 2, client_sockets = [0, 1],
     player_connections = [(0, 0), (1, 1)], game_start_time = None\<rparr>"
  have a: "run [Accept 0 (50, 60, 70) 1, Accept 1 (51, 60, 70) 2] init_world = ?w2"
    by (simp add: init_world_def accept_admit)
  have m0: "do_step (Intent (move_by 0 (-400) (-300))) ?w2 =
      ?w2\<lparr>players := [(0, (new_player (50, 60, 70))\<lparr>pos := (0, 0)\<rparr>), (1, new_player (51, 60, 70))]\<rparr>"
    using handle_live [of "move_by 0 (-400) (-300)" 0 ?w2 "new_player (50, 60, 70)"]
    by (simp add: move_by_def get_default_def new_player_def)
  have m1: "do_step (Intent (move_by 1 (-390) (-300)))
      (?w2\<lparr>players := [(0, (new_player (50, 60, 70))\<lparr>pos := (0, 0)\<rparr>), (1, new_player (51, 60, 70))]\<rparr>) =
      ?w2\<lparr>players := [(0, (new_player (50, 60, 70))\<lparr>pos := (0, 0)\<rparr>),
        (1, (new_player (51, 60, 70))\<lparr>pos := (10, 0)\<rparr>)]\<rparr>"
    using handle_live [of "move_by 1 (-390) (-300)" 1
        "?w2\<lparr>players := [(0, (new_player (50, 60, 70))\<lparr>pos := (0, 0)\<rparr>), (1, new_player (51, 60, 70))]\<rparr>"
        "new_player (51, 60, 70)"]
    by (simp add: move_by_def get_default_def new_player_def)
  have "scenario_A = do_step (Intent (move_by 1 (-390) (-300)))
      (do_step (Intent (move_by 0 (-400) (-300)))
        (run [Accept 0 (50, 60, 70) 1, Accept 1 (51, 60, 70) 2] init_world))"
    by (simp add: scenario_A_def)
  then show ?thesis by (simp only: a m0 m1) simp
qed

lemma scenario_A_after:
  "run (three_shots 0 3) scenario_A =
     scenario_A\<lparr>players := [(0, (new_player (50, 60, 70))\<lparr>pos := (0, 0)\<rparr>),
      (1, (new_player (51, 60, 70))\<lparr>pos := (10, 0), health := 25\<rparr>)]\<rparr>"
proof -
  let ?po = "(new_player (50, 60, 70))\<lparr>pos := (0, 0)\<rparr>"
  have l: "map_of (players scenario_A) 0 = Some ?po" by (simp add: scenario_A_eq)
  have a: "\<not> is_dead ?po" by (simp add: new_player_def)
  note r = three_shots_world [OF l a, of 3]
  show ?thesis unfolding r
    by (simp add: scenario_A_eq tick_world move_bullet_def in_bounds_def
        overlap_def Let_def apply_hit_def has_key_def new_player_def)
qed

lemma scenario_A_before:
  "players (run [Intent (shoot_right 0), Intent (shoot_right 0), Intent (shoot_right 0)] scenario_A) =
     players scenario_A"
proof -
  let ?po = "(new_player (50, 60, 70))\<lparr>pos := (0, 0)\<rparr>"
  have l: "map_of (players scenario_A) 0 = Some ?po" by (simp add: scenario_A_eq)
  have a: "\<not> is_dead ?po" by (simp add: new_player_def)
  show ?thesis unfolding three_intents_world [OF l a] by simp
qed

subsection \<open>Stale intents and repeated teardown\<close>

text \<open>
  C6. A message whose player id is not a key of \<open>players\<close>, or whose player is dead,
  returns normally and leaves the whole world as it was, whatever its action. The
  \<open>finally\<close> block of \<open>handle_client\<close> for a player id that is not a key of \<open>players\<close>
  returns normally and leaves \<open>players\<close> and \<open>bullets\<close> as they were; it never raises,
  and running it a second time changes neither \<open>players\<close> nor \<open>player_connections\<close>.
\<close>

theorem stale_intent_and_teardown_noop:
  "((\<not> pid_in (m_player_id msg) (players w) \<or>
      (\<exists>k p. m_player_id msg = Some k \<and> map_of (players w) k = Some p \<and> is_dead p))
     \<longrightarrow> handle_client_msg msg w = Inr w) \<and>
   (\<not> has_key (players w) player_id \<longrightarrow>
      (\<exists>w'. handle_client_finally conn player_id w = Inr w' \<and> players w' = players w \<and>
            bullets w' = bullets w)) \<and>
   (\<exists>w1 w2. handle_client_finally conn player_id w = Inr w1 \<and>
       handle_client_finally conn player_id w1 = Inr w2 \<and> players w2 = players w1 \<and>
       player_connections w2 = player_connections w1)"
proof (intro conjI impI)
  assume "\<not> pid_in (m_player_id msg) (players w) \<or>
      (\<exists>k p. m_player_id msg = Some k \<and> map_of (players w) k = Some p \<and> is_dead p)"
  then show "handle_client_msg msg w = Inr w"
    using handle_unknown handle_dead by blast
next
  assume "\<not> has_key (players w) player_id"
  then show "\<exists>w'. handle_client_finally conn player_id w = Inr w' \<and> players w' = players w \<and>
            bullets w' = bullets w"
    by (simp add: handle_client_finally_def delitem_def list_remove_def)
next
  show "\<exists>w1 w2. handle_client_finally conn player_id w = Inr w1 \<and>
       handle_client_finally conn player_id w1 = Inr w2 \<and> players w2 = players w1 \<and>
       player_connections w2 = player_connections w1"
    by (simp add: handle_client_finally_def delitem_def list_remove_def has_key_delete)
qed

theorem stale_intent_and_teardown_noop_witness:
  "handle_client_msg
     \<lparr>m_action = Some ''move'', m_player_id = Some 7, m_dx = Some 5, m_dy = None\<rparr> w_ex
     = Inr w_ex \<and>
   handle_client_msg
     \<lparr>m_action = Some ''shoot'', m_player_id = Some 1, m_dx = Some 1, m_dy = Some 0\<rparr> w_ex
     = Inr w_ex \<and>
   (\<exists>w'. handle_client_finally 3 7 w_ex = Inr w' \<and> players w' = players w_ex \<and>
      bullets w' = bullets w_ex)"
proof -
  let ?m1 = "\<lparr>m_action = Some ''move'', m_player_id = Some 7, m_dx = Some 5, m_dy = None\<rparr>"
  let ?m2 = "\<lparr>m_action = Some ''shoot'', m_player_id = Some 1, m_dx = Some 1, m_dy = Some 0\<rparr>"
  have a: "\<not> pid_in (m_player_id ?m1) (players w_ex)"
    by (simp add: w_ex_def init_world_def pid_in_def has_key_def)
  have b: "\<exists>k p. m_player_id ?m2 = Some k \<and> map_of (players w_ex) k = Some p \<and> is_dead p"
    by (simp add: w_ex_def init_world_def)
  have c: "\<not> has_key (players w_ex) 7"
    by (simp add: w_ex_def init_world_def has_key_def)
  from a stale_intent_and_teardown_noop [of ?m1 w_ex 7 3]
  have 1: "handle_client_msg ?m1 w_ex = Inr w_ex" by blast
  from b stale_intent_and_teardown_noop [of ?m2 w_ex 7 3]
  have 2: "handle_client_msg ?m2 w_ex = Inr w_ex" by blast
  from c stale_intent_and_teardown_noop [of ?m2 w_ex 7 3]
  have 3: "\<exists>w'. handle_client_finally 3 7 w_ex = Inr w' \<and> players w' = players w_ex \<and>
      bullets w' = bullets w_ex" by blast
  from 1 2 3 show ?thesis by blast
qed

subsection \<open>Admission at capacity\<close>



subsection \<open>Intents with absent direction fields\<close>



subsection \<open>Order of the steps of a tick\<close>

text \<open>
  C4. One iteration of \<open>game_loop\<close> advances every bullet by its velocity once, then
  drops the bullets outside the closed rectangle [0, 800] x [0, 600], then resolves
  collisions on what is left, then broadcasts: the players and bullets of the snapshot are
  the result of collision resolution on the advanced, filtered list, and they are the
  bullets the world keeps. So every bullet of a snapshot has \<open>0 \<le> x \<le> 800\<close> and
  \<open>0 \<le> y \<le> 600\<close>, and is a bullet of the world before the tick moved by its velocity.
\<close>

theorem tick_order_snapshot_in_bounds:
  "(let moved = map move_bullet (bullets w);
        kept = filter in_bounds moved;
        resolved = check_loop kept (players w) [];
        snap = fst (snd (game_loop_tick now w))
    in s_players snap = fst resolved \<and> s_bullets snap = snd resolved \<and>
       s_bullets snap = bullets (fst (game_loop_tick now w)) \<and>
       set (s_bullets snap) \<subseteq> set kept \<and>
       (\<forall>b \<in> set (s_bullets snap).
          0 \<le> b_x b \<and> b_x b \<le> 800 \<and> 0 \<le> b_y b \<and> b_y b \<le> 600 \<and>
          (\<exists>b0 \<in> set (bullets w). b = b0\<lparr>b_x := b_x b0 + b_dx b0, b_y := b_y b0 + b_dy b0\<rparr>)))"
proof -
  let ?kept = "filter in_bounds (map move_bullet (bullets w))"
  let ?res = "check_loop ?kept (players w) []"
  let ?snap = "fst (snd (game_loop_tick now w))"
  have sp: "s_players ?snap = fst ?res" and sb: "s_bullets ?snap = snd ?res"
    by (simp_all add: tick_snapshot tick_world broadcast_game_state_def Let_def)
  have bw: "bullets (fst (game_loop_tick now w)) = snd ?res"
    by (simp add: tick_world)
  have sub: "set (snd ?res) \<subseteq> set ?kept"
    using surviving_check_loop [of ?kept "players w" "[]"] by simp
  have each: "0 \<le> b_x b \<and> b_x b \<le> 800 \<and> 0 \<le> b_y b \<and> b_y b \<le> 600 \<and>
          (\<exists>b0 \<in> set (bullets w). b = b0\<lparr>b_x := b_x b0 + b_dx b0, b_y := b_y b0 + b_dy b0\<rparr>)"
    if "b \<in> set (snd ?res)" for b
  proof -
    from that sub have "b \<in> set ?kept" by blast
    then have "in_bounds b" and "b \<in> move_bullet ` set (bullets w)" by simp_all
    then show ?thesis by (auto simp: in_bounds_def move_bullet_def)
  qed
  show ?thesis
    unfolding Let_def using sp sb bw sub each by simp
qed

theorem tick_order_snapshot_in_bounds_witness:
  "s_bullets (fst (snd (game_loop_tick 0 w_tick))) =
     [\<lparr>b_x = 800, b_y = 300, b_dx = 10, b_dy = 0, owner_id = 0\<rparr>] \<and>
   0 \<le> b_x \<lparr>b_x = 800, b_y = 300, b_dx = 10, b_dy = 0, owner_id = 0\<rparr> \<and>
   b_x \<lparr>b_x = 800, b_y = 300, b_dx = 10, b_dy = 0, owner_id = 0\<rparr> \<le> 800 \<and>
   0 \<le> b_y \<lparr>b_x = 800, b_y = 300, b_dx = 10, b_dy = 0, owner_id = 0\<rparr> \<and>
   b_y \<lparr>b_x = 800, b_y = 300, b_dx = 10, b_dy = 0, owner_id = 0\<rparr> \<le> 600"
proof -
  let ?b = "\<lparr>b_x = 800, b_y = 300, b_dx = 10, b_dy = 0, owner_id = 0\<rparr>"
  have eq: "s_bullets (fst (snd (game_loop_tick 0 w_tick))) = [?b]"
    by (simp add: w_tick_def init_world_def tick_snapshot tick_world broadcast_game_state_def
        Let_def move_bullet_def in_bounds_def)
  have m: "?b \<in> set (s_bullets (fst (snd (game_loop_tick 0 w_tick))))"
    unfolding eq by simp
  have "\<forall>b \<in> set (s_bullets (fst (snd (game_loop_tick 0 w_tick)))).
      0 \<le> b_x b \<and> b_x b \<le> 800 \<and> 0 \<le> b_y b \<and> b_y b \<le> 600"
    using tick_order_snapshot_in_bounds [of w_tick 0] unfolding Let_def by blast
  from bspec [OF this m] eq show ?thesis by (intro conjI) blast+
qed

subsection \<open>The session clock\<close>

text \<open>
  C7. In every run of the server from the initial world: while \<open>game_start_time\<close> is
  \<open>None\<close> fewer than 4 players are registered; once it is set no step changes it; the
  only step that sets it is an admission that takes the player count from 3 to 4, and it
  sets it to that admission's clock reading; an admission that leaves 4 players while it
  is unset does set it. The \<open>time_left\<close> broadcast by a tick is 300 while the clock is
  unset and \<open>max(0, 300 - (now - start))\<close> afterwards, and is never negative.
\<close>

theorem session_clock_set_once_time_left:
  "(let w = run ss init_world in
     (game_start_time w = None \<longrightarrow> length (players w) < 4) \<and>
     (game_start_time w = Some t \<longrightarrow> game_start_time (do_step s w) = Some t) \<and>
     (game_start_time w = None \<and> game_start_time (do_step s w) = Some t \<longrightarrow>
        (\<exists>conn col. s = Accept conn col t) \<and> length (players w) = 3 \<and>
        length (players (do_step s w)) = 4) \<and>
     (game_start_time w = None \<and> 4 \<le> length (players (do_step (Accept conn col now) w)) \<longrightarrow>
        game_start_time (do_step (Accept conn col now) w) = Some now) \<and>
     time_left (fst (snd (game_loop_tick now w))) =
       (case game_start_time w of None \<Rightarrow> 300 | Some t0 \<Rightarrow> max 0 (300 - (now - t0))) \<and>
     0 \<le> time_left (fst (snd (game_loop_tick now w))))"
proof -
  let ?w = "run ss init_world"
  have inv: "start_inv ?w" by (rule start_inv_run [OF start_inv_init])
  have 1: "game_start_time ?w = None \<longrightarrow> length (players ?w) < 4"
    using inv by (simp add: start_inv_def)
  have 2: "game_start_time ?w = Some t \<longrightarrow> game_start_time (do_step s ?w) = Some t"
    using step_start_kept [of ?w t s] by blast
  have 3: "game_start_time ?w = None \<and> game_start_time (do_step s ?w) = Some t \<longrightarrow>
        (\<exists>conn col. s = Accept conn col t) \<and> length (players ?w) = 3 \<and>
        length (players (do_step s ?w)) = 4"
  proof
    assume a: "game_start_time ?w = None \<and> game_start_time (do_step s ?w) = Some t"
    then have l: "length (players ?w) < 4" using 1 by blast
    from a step_start_set [of ?w s t] obtain c k where s: "s = Accept c k t"
      and g: "4 \<le> length (players (do_step s ?w))" by blast
    have "length (players (do_step s ?w)) \<le> Suc (length (players ?w))"
      using l s by (simp add: accept_admit length_update)
    with l g have "length (players ?w) = 3 \<and> length (players (do_step s ?w)) = 4"
      by linarith
    moreover from s have "\<exists>conn col. s = Accept conn col t" by blast
    ultimately show "(\<exists>conn col. s = Accept conn col t) \<and> length (players ?w) = 3 \<and>
        length (players (do_step s ?w)) = 4" by (intro conjI) simp_all
  qed
  have 4: "game_start_time ?w = None \<and> 4 \<le> length (players (do_step (Accept conn col now) ?w)) \<longrightarrow>
        game_start_time (do_step (Accept conn col now) ?w) = Some now"
  proof
    assume a: "game_start_time ?w = None \<and> 4 \<le> length (players (do_step (Accept conn col now) ?w))"
    then have l: "length (players ?w) < 5" using 1 by auto
    with a show "game_start_time (do_step (Accept conn col now) ?w) = Some now"
      by (simp add: accept_admit)
  qed
  have 5: "time_left (fst (snd (game_loop_tick now ?w))) =
       (case game_start_time ?w of None \<Rightarrow> 300 | Some t0 \<Rightarrow> max 0 (300 - (now - t0)))"
    by (rule tick_time_left)
  have 6: "0 \<le> time_left (fst (snd (game_loop_tick now ?w)))"
    unfolding 5 by (simp split: option.splits)
  show ?thesis unfolding Let_def using 1 2 3 4 5 6 by (intro conjI)
qed

theorem session_clock_set_once_time_left_witness:
  "game_start_time three_joined = None \<and> length (players three_joined) = 3 \<and>
   game_start_time (do_step (Accept 3 (53, 60, 70) 4) three_joined) = Some 4 \<and>
   length (players (do_step (Accept 3 (53, 60, 70) 4) three_joined)) = 4 \<and>
   time_left (fst (snd (game_loop_tick 9 three_joined))) = 300 \<and>
   game_start_time (do_step (Tick 10) five_joined) = Some 4 \<and>
   time_left (fst (snd (game_loop_tick 10 five_joined))) = 294 \<and>
   time_left (fst (snd (game_loop_tick 1000 five_joined))) = 0"
proof -
  let ?s = "Accept 3 (53, 60, 70) 4"
  note t3 = session_clock_set_once_time_left [of "[Accept 0 (50, 60, 70) 1, Accept 1 (51, 60, 70) 2, Accept 2 (52, 60, 70) 3]"
      4 ?s 3 "(53, 60, 70)" 9, unfolded Let_def, folded three_joined_def]
  note t5 = session_clock_set_once_time_left [of "[Accept 0 (50, 60, 70) 1, Accept 1 (51, 60, 70) 2, Accept 2 (52, 60, 70) 3,
      Accept 3 (53, 60, 70) 4, Accept 4 (54, 60, 70) 5]" 4 "Tick 10" 0 "(0, 0, 0)" 10,
      unfolded Let_def, folded five_joined_def]
  note t5' = session_clock_set_once_time_left [of "[Accept 0 (50, 60, 70) 1, Accept 1 (51, 60, 70) 2, Accept 2 (52, 60, 70) 3,
      Accept 3 (53, 60, 70) 4, Accept 4 (54, 60, 70) 5]" 4 "Tick 10" 0 "(0, 0, 0)" 1000,
      unfolded Let_def, folded five_joined_def]
  have n: "game_start_time three_joined = None" by (simp add: three_joined_eq)
  have s5: "game_start_time five_joined = Some 4" by (simp add: five_joined_eq)
  have a: "game_start_time (do_step ?s three_joined) = Some 4"
    by (simp add: three_joined_eq accept_admit)
  from t3 n a have b: "length (players three_joined) = 3 \<and>
      length (players (do_step ?s three_joined)) = 4" by blast
  from t3 n have c: "time_left (fst (snd (game_loop_tick 9 three_joined))) = 300" by simp
  from t5 s5 have d: "game_start_time (do_step (Tick 10) five_joined) = Some 4" by blast
  from t5 s5 have e: "time_left (fst (snd (game_loop_tick 10 five_joined))) = 294" by simp
  from t5' s5 have f: "time_left (fst (snd (game_loop_tick 1000 five_joined))) = 0" by simp
  from n a b c d e f show ?thesis by (intro conjI) simp_all
qed

subsection \<open>Damage, death and kill credit\<close>

text \<open>
  C1. When the inner loop of \<open>check_bullet_collisions\<close> finds, for a bullet, a first
  player that is not the owner, is not dead and overlaps it, the bullet counts as a hit
  and the dictionary changes as follows and in no other way. The victim's health drops by
  exactly 25; if the result is at most 0 the health is stored as 0 and \<open>is_dead\<close> as
  true, and the owner's \<open>kills\<close> grows by exactly 1 when the owner is still a key of
  \<open>players\<close>; when the owner is gone no entry is created and nothing else changes.
\<close>

theorem collision_damage_and_kill_credit:
  assumes "distinct (map fst ps)" and "spec_first_hit b ps = Some (vid, v)"
  shows "map_of ps vid = Some v \<and> vid \<noteq> owner_id b \<and> \<not> is_dead v \<and> overlap b v \<and>
     snd (collide_bullet b ps ps) \<and>
     map fst (fst (collide_bullet b ps ps)) = map fst ps \<and>
     (\<forall>k. map_of (fst (collide_bullet b ps ps)) k =
        (if k = vid then
           Some (if health v - 25 \<le> 0 then v\<lparr>health := 0, is_dead := True\<rparr>
                 else v\<lparr>health := health v - 25\<rparr>)
         else if k = owner_id b \<and> health v - 25 \<le> 0 then
           map_option (\<lambda>q. q\<lparr>kills := kills q + 1\<rparr>) (map_of ps k)
         else map_of ps k))"
proof -
  have f: "find (spec_eligible b) ps = Some (vid, v)"
    using assms(2) by (simp add: spec_first_hit_def)
  have look: "map_of ps vid = Some v" by (rule find_distinct_lookup [OF assms(1) f])
  have el: "spec_eligible b (vid, v)" using f by (auto simp: find_Some_iff)
  then have ne: "owner_id b \<noteq> vid" and props: "vid \<noteq> owner_id b \<and> \<not> is_dead v \<and> overlap b v"
    by (auto simp: spec_eligible_def)
  have c: "collide_bullet b ps ps = (apply_hit (owner_id b) vid v ps, True)"
    by (simp add: collide_bullet_find f)
  show ?thesis
    using look props apply_hit_lookup [OF look ne] by (simp add: c keys_apply_hit)
qed

theorem collision_damage_and_kill_credit_witness:
  "distinct (map fst duel) \<and>
   spec_first_hit shot duel = Some (1, (new_player (51, 60, 70))\<lparr>health := 25\<rparr>) \<and>
   map_of (fst (collide_bullet shot duel duel)) 1 =
     Some ((new_player (51, 60, 70))\<lparr>health := 0, is_dead := True\<rparr>) \<and>
   map_of (fst (collide_bullet shot duel duel)) 0 = Some ((new_player (50, 60, 70))\<lparr>kills := 1\<rparr>) \<and>
   map_of (fst (collide_bullet shot duel duel)) 2 = Some (new_player (52, 60, 70))"
proof -
  have d: "distinct (map fst duel)" by (simp add: duel_def)
  note t = collision_damage_and_kill_credit [OF d shot_first_hit]
  have o: "owner_id shot = 0" by (simp add: shot_def)
  have m: "map_of duel 0 = Some (new_player (50, 60, 70))"
    "map_of duel 2 = Some (new_player (52, 60, 70))" by (simp_all add: duel_def)
  from t have 1: "map_of (fst (collide_bullet shot duel duel)) 1 =
     Some ((new_player (51, 60, 70))\<lparr>health := 0, is_dead := True\<rparr>)" by simp
  from t o m have 0: "map_of (fst (collide_bullet shot duel duel)) 0 =
     Some ((new_player (50, 60, 70))\<lparr>kills := 1\<rparr>)" by (simp add: new_player_def)
  from t o m have 2: "map_of (fst (collide_bullet shot duel duel)) 2 =
     Some (new_player (52, 60, 70))" by simp
  from d shot_first_hit 1 0 2 show ?thesis by (intro conjI)
qed

subsection \<open>One bullet, one victim\<close>



subsection \<open>Health range and the death flag\<close>

text \<open>
  C3. In every world the server can reach from its initial world by admissions, client
  messages (move, shoot and anything else), disconnects and ticks (integration, culling
  and collision resolution), every player's health lies in [0, 100] and is 0 if and only
  if the player's \<open>is_dead\<close> flag is set.
\<close>

theorem health_range_and_death_flag:
  "\<forall>e \<in> set (players (run ss init_world)).
     0 \<le> health (snd e) \<and> health (snd e) \<le> 100 \<and> (health (snd e) = 0 \<longleftrightarrow> is_dead (snd e))"
  using world_inv_run [OF world_inv_init, of ss] by (simp add: world_inv_def health_ok_def)

theorem health_range_and_death_flag_witness:
  "players after_kill = [(0, (new_player (50, 60, 70))\<lparr>kills := 1\<rparr>),
       (1, (new_player (51, 60, 70))\<lparr>health := 0, is_dead := True\<rparr>)] \<and>
   0 \<le> health ((new_player (51, 60, 70))\<lparr>health := 0, is_dead := True\<rparr>) \<and>
   health ((new_player (51, 60, 70))\<lparr>health := 0, is_dead := True\<rparr>) \<le> 100 \<and>
   (health ((new_player (51, 60, 70))\<lparr>health := 0, is_dead := True\<rparr>) = 0) =
     is_dead ((new_player (51, 60, 70))\<lparr>health := 0, is_dead := True\<rparr>) \<and>
   0 \<le> health ((new_player (50, 60, 70))\<lparr>kills := 1\<rparr>) \<and>
   health ((new_player (50, 60, 70))\<lparr>kills := 1\<rparr>) \<le> 100 \<and>
   (health ((new_player (50, 60, 70))\<lparr>kills := 1\<rparr>) = 0) =
     is_dead ((new_player (50, 60, 70))\<lparr>kills := 1\<rparr>)"
proof -
  let ?o = "(new_player (50, 60, 70))\<lparr>kills := 1\<rparr>"
  let ?d = "(new_player (51, 60, 70))\<lparr>health := 0, is_dead := True\<rparr>"
  have p: "players after_kill = [(0, ?o), (1, ?d)]"
    by (simp add: after_kill_eq)
  have m: "(1, ?d) \<in> set (players after_kill)" "(0, ?o) \<in> set (players after_kill)"
    unfolding p by simp_all
  note t = health_range_and_death_flag [of kill_run, folded after_kill_def]
  from bspec [OF t m(1)] bspec [OF t m(2)] p show ?thesis
    unfolding snd_conv by (intro conjI) blast+
qed

subsection \<open>Death is permanent\<close>

text \<open>
  C9. Take any world the server can reach in which player \<open>k\<close> is dead, and any further
  steps (admissions, client messages, disconnects, ticks) after which \<open>k\<close> is still a
  key of \<open>players\<close>. Then \<open>k\<close> is still dead and its health has not grown; it is in
  fact unchanged. Identities are never reused, so a removed player does not come back
  under the same key either.
\<close>

theorem death_is_permanent:
  assumes "map_of (players (run ss1 init_world)) k = Some p" and "is_dead p"
    and "map_of (players (run ss2 (run ss1 init_world))) k = Some p'"
  shows "is_dead p' \<and> health p' \<le> health p \<and> health p' = health p"
proof -
  let ?w = "run ss1 init_world"
  have inv: "world_inv ?w" by (rule world_inv_run [OF world_inv_init])
  have "(k, p) \<in> set (players ?w)" by (rule map_of_SomeD [OF assms(1)])
  then have lt: "k < next_player_id ?w" using inv by (auto simp: world_inv_def)
  have g: "dead_or_gone k (health p) (players ?w)"
    using assms(1,2) by (simp add: dead_or_gone_def)
  from dead_run [OF inv lt g, of ss2] assms(3) show ?thesis by (simp add: dead_or_gone_def)
qed

theorem death_is_permanent_witness:
  "map_of (players (run kill_run init_world)) 1 =
     Some ((new_player (51, 60, 70))\<lparr>health := 0, is_dead := True\<rparr>) \<and>
   map_of (players (run later_run (run kill_run init_world))) 1 =
     Some ((new_player (51, 60, 70))\<lparr>health := 0, is_dead := True\<rparr>) \<and>
   is_dead ((new_player (51, 60, 70))\<lparr>health := 0, is_dead := True\<rparr>) \<and>
   health ((new_player (51, 60, 70))\<lparr>health := 0, is_dead := True\<rparr>) \<le> 0"
proof -
  let ?d = "(new_player (51, 60, 70))\<lparr>health := 0, is_dead := True\<rparr>"
  have a: "map_of (players (run kill_run init_world)) 1 = Some ?d"
    using after_kill_eq by (simp add: after_kill_def)
  have b: "is_dead ?d" by simp
  have c: "map_of (players (run later_run (run kill_run init_world))) 1 = Some ?d"
    using later_players by (simp add: after_kill_def)
  from death_is_permanent [OF a b c] have "is_dead ?d \<and> health ?d \<le> health ?d" by blast
  with a c show ?thesis by simp
qed

subsection \<open>Scenario A: three shots at a neighbour\<close>

text \<open>
  C5, as stated, fails. With the owner at (0, 0), the victim at (10, 0), both at health
  100, and three shoot messages with direction (1, 0) sent before the tick, the three
  bullets all reach (10, 0) in that tick and each one hits: the victim's health after the
  tick is 25, not 75. It is 100 before the tick and still 25 after a second tick.
\<close>

theorem scenario_A_health_not_75:
  "map_option health (map_of (players (run (three_shots 0 3) scenario_A)) 1) = Some 25 \<and>
   map_option health (map_of (players (run (three_shots 0 3) scenario_A)) 1) \<noteq> Some 75 \<and>
   map_option health (map_of (players
      (run [Intent (shoot_right 0), Intent (shoot_right 0), Intent (shoot_right 0)] scenario_A)) 1)
     = Some 100 \<and>
   map_option health (map_of (players (do_step (Tick 4) (run (three_shots 0 3) scenario_A))) 1)
     = Some 25"
proof -
  have 1: "map_option health (map_of (players (run (three_shots 0 3) scenario_A)) 1) = Some 25"
    by (simp add: scenario_A_after)
  have 0: "map_option health (map_of (players
      (run [Intent (shoot_right 0), Intent (shoot_right 0), Intent (shoot_right 0)] scenario_A)) 1)
     = Some 100"
    unfolding scenario_A_before by (simp add: scenario_A_eq new_player_def)
  have 2: "map_option health (map_of (players (do_step (Tick 4) (run (three_shots 0 3) scenario_A))) 1)
     = Some 25"
    unfolding scenario_A_after by (simp add: scenario_A_eq tick_world)
  have n: "map_option health (map_of (players (run (three_shots 0 3) scenario_A)) 1) \<noteq> Some 75"
    unfolding 1 by simp
  from 1 n 0 2 show ?thesis by (intro conjI)
qed

text \<open>
  C5, amended. In a world whose only players are an owner at (0, 0) and a victim at
  (10, 0), both alive with health 100, the owner with 0 kills, and with no bullet in
  flight: after three shoot messages of the owner with direction (1, 0) and one tick, the
  victim's health is 25, the owner's entry (and so its kill counter, 0) is unchanged and
  no bullet is left; after a single such shoot message and one tick the victim's health
  is 75.
\<close>

theorem scenario_A_three_shots:
  assumes pl: "players w = [(oid, po), (vid, pv)] \<or> players w = [(vid, pv), (oid, po)]"
    and ne: "oid \<noteq> vid" and nb: "bullets w = []"
    and o: "pos po = (0, 0)" "health po = 100" "\<not> is_dead po" "kills po = 0"
    and v: "pos pv = (10, 0)" "health pv = 100" "\<not> is_dead pv"
  shows "map_of (players (run (three_shots oid now) w)) vid = Some (pv\<lparr>health := 25\<rparr>) \<and>
     map_of (players (run (three_shots oid now) w)) oid = Some po \<and>
     map_option kills (map_of (players (run (three_shots oid now) w)) oid) = Some 0 \<and>
     bullets (run (three_shots oid now) w) = [] \<and>
     map_of (players (run [Intent (shoot_right oid), Tick now] w)) vid = Some (pv\<lparr>health := 75\<rparr>)"
proof -
  have lo: "map_of (players w) oid = Some po" using pl ne by auto
  note three = three_shots_world [OF lo o(3), of now]
  note one = one_shot_world [OF lo o(3), of now]
  from pl show ?thesis
  proof
    assume "players w = [(oid, po), (vid, pv)]"
    then show ?thesis using ne nb o v unfolding three one
      by (simp add: tick_world move_bullet_def in_bounds_def overlap_def Let_def
          apply_hit_def has_key_def)
  next
    assume "players w = [(vid, pv), (oid, po)]"
    then show ?thesis using ne nb o v unfolding three one
      by (simp add: tick_world move_bullet_def in_bounds_def overlap_def Let_def
          apply_hit_def has_key_def)
  qed
qed

theorem scenario_A_three_shots_witness:
  "map_of (players (run (three_shots 0 3) scenario_A)) 1 =
      Some ((new_player (51, 60, 70))\<lparr>pos := (10, 0), health := 25\<rparr>) \<and>
   map_of (players (run (three_shots 0 3) scenario_A)) 0 =
      Some ((new_player (50, 60, 70))\<lparr>pos := (0, 0)\<rparr>) \<and>
   kills ((new_player (50, 60, 70))\<lparr>pos := (0, 0)\<rparr>) = 0"
proof -
  let ?po = "(new_player (50, 60, 70))\<lparr>pos := (0, 0)\<rparr>"
  let ?pv = "(new_player (51, 60, 70))\<lparr>pos := (10, 0)\<rparr>"
  have pl: "players scenario_A = [(0, ?po), (1, ?pv)] \<or> players scenario_A = [(1, ?pv), (0, ?po)]"
    by (simp add: scenario_A_eq)
  have nb: "bullets scenario_A = []" by (simp add: scenario_A_eq)
  have t: "map_of (players (run (three_shots 0 3) scenario_A)) 1 = Some (?pv\<lparr>health := 25\<rparr>) \<and>
     map_of (players (run (three_shots 0 3) scenario_A)) 0 = Some ?po"
    using scenario_A_three_shots [OF pl _ nb, of 3] by (simp add: new_player_def)
  then show ?thesis by (simp add: new_player_def)
qed

end
